theory Spec2Isabelle
  imports Complex_Main
begin

section \<open>Strings\<close>

text \<open>
  JavaScript strings are modelled as \<^typ>\<open>string\<close>.  \<open>String.prototype.trim\<close> removes
  leading and trailing white space; on the characters a \<^typ>\<open>char\<close> can hold these are
  space, tab, line feed, vertical tab, form feed and carriage return.
\<close>

definition is_space :: "char \<Rightarrow> bool" where
  "is_space c = (c \<in> set [CHR '' '', CHR 0x09, CHR 0x0A, CHR 0x0B, CHR 0x0C, CHR 0x0D])"

definition trim :: "string \<Rightarrow> string" where
  "trim s = rev (dropWhile is_space (rev (dropWhile is_space s)))"

text \<open>\<open>s.includes(sub)\<close>: does \<open>sub\<close> occur in \<open>s\<close> as a contiguous substring.\<close>

fun str_includes :: "string \<Rightarrow> string \<Rightarrow> bool" where
  "str_includes [] sub = (sub = [])"
| "str_includes (c # cs) sub = (take (length sub) (c # cs) = sub \<or> str_includes cs sub)"

section \<open>The browser objects the hook owns\<close>

text \<open>
  The recognition object of the Web Speech API.  A capture session is either not running,
  running, or asked to stop and not yet ended.  \<open>recognition.stop()\<close> is ignored unless a
  session is running; \<open>recognition.start()\<close> throws an \<open>InvalidStateError\<close> whose message
  says that recognition has already started while a session has not ended yet.
\<close>

datatype recognition = Inactive | Capturing | Stopping

definition recognition_stop :: "recognition \<Rightarrow> recognition" where
  "recognition_stop r = (case r of Capturing \<Rightarrow> Stopping | _ \<Rightarrow> r)"

definition already_started_message :: string where
  "already_started_message =
     ''InvalidStateError: Failed to execute start on SpeechRecognition: recognition has already started.''"

definition recognition_start :: "recognition \<Rightarrow> string option" where
  "recognition_start r = (if r = Inactive then None else Some already_started_message)"

text \<open>
  A promise returned by \<open>speak\<close>.  Only the first \<open>resolve\<close> settles it.
\<close>

datatype promise = Pending | Resolved real | Rejected

definition resolve :: "real \<Rightarrow> promise \<Rightarrow> promise" where
  "resolve v p = (case p of Pending \<Rightarrow> Resolved v | _ \<Rightarrow> p)"

text \<open>
  One call of \<open>speak\<close>: its request to the TTS service, its promise, and the \<open>Audio\<close>
  element with its object URL once the response has arrived.  \<open>duration\<close> is \<open>None\<close> while
  the element reports \<open>NaN\<close>, that is until the metadata is loaded.
\<close>

record speech =
  spoken :: string
  fetching :: bool
  promise :: promise
  has_audio :: bool
  duration :: "real option"
  playing :: bool
  currentTime :: real
  url_revoked :: bool

text \<open>The callbacks the hook hands to \<open>setTimeout\<close>.\<close>

datatype timer_cb = SilenceStop | DurationFallback nat

section \<open>The state of \<open>useKuro\<close>\<close>

text \<open>
  The five \<open>useState\<close> cells (with every \<open>set...\<close> applied at once), the refs, what the
  last committed render has seen (\<open>rendered_rawTranscript\<close> is the dependency of the effect
  that copies \<open>rawTranscript\<close> into \<open>latestTextRef\<close>; \<open>rendered_isSpeaking\<close> is the value
  of \<open>isSpeaking\<close> the memoised \<open>start\<close> has closed over), the pending timers of the window
  and the speech jobs created so far.  \<open>recognitionRef\<close> is \<open>None\<close> for \<open>null\<close>; \<open>audioRef\<close>
  holds the number of the job whose element it references.  \<open>lastSpeechTimeRef\<close> is
  written by \<open>onresult\<close> and read nowhere, so it has no field.  Timer identifiers start
  at 1, as in a browser, so a stored identifier is never falsy.
\<close>

record kuro =
  isListening :: bool
  isSpeaking :: bool
  transcript :: string
  rawTranscript :: string
  error :: "string option"
  recognitionRef :: "recognition option"
  synthRef :: bool
  audioRef :: "nat option"
  silenceTimerRef :: "nat option"
  latestTextRef :: string
  rendered_rawTranscript :: string
  rendered_isSpeaking :: bool
  timers :: "(nat \<times> timer_cb) list"
  next_timer :: nat
  speeches :: "speech list"

definition initial :: kuro where
  "initial = \<lparr> isListening = False, isSpeaking = False, transcript = [], rawTranscript = [],
     error = None, recognitionRef = None, synthRef = False, audioRef = None,
     silenceTimerRef = None, latestTextRef = [], rendered_rawTranscript = [],
     rendered_isSpeaking = False, timers = [], next_timer = 1, speeches = [] \<rparr>"

subsection \<open>Timers\<close>

definition setTimeout :: "timer_cb \<Rightarrow> kuro \<Rightarrow> nat \<times> kuro" where
  "setTimeout cb s =
     (next_timer s, s\<lparr>timers := timers s @ [(next_timer s, cb)], next_timer := Suc (next_timer s)\<rparr>)"

definition clearTimeout :: "nat \<Rightarrow> kuro \<Rightarrow> kuro" where
  "clearTimeout t s = s\<lparr>timers := filter (\<lambda>(i, cb). i \<noteq> t) (timers s)\<rparr>"


subsection \<open>Mounting and rendering\<close>

text \<open>
  The effects of the first commit: without a \<open>SpeechRecognition\<close> constructor the error is
  set and nothing is created; otherwise the recognition object is stored, its handlers are
  the functions \<open>onresult\<close>, \<open>onend\<close> (as rebound by the third effect of the same commit)
  and \<open>onerror\<close> below.
\<close>

definition mount :: "bool \<Rightarrow> kuro \<Rightarrow> kuro" where
  "mount supported s =
     (if \<not> supported then s\<lparr>error := Some ''Speech recognition not supported in this browser''\<rparr>
      else s\<lparr>recognitionRef := Some Inactive, synthRef := True\<rparr>)"

text \<open>
  A later commit: the effect with dependency \<open>[rawTranscript]\<close> runs when the value differs
  from the one of the previous commit, and \<open>start\<close> is memoised again on \<open>[isSpeaking]\<close>.
\<close>

definition render :: "kuro \<Rightarrow> kuro" where
  "render s =
     s\<lparr>latestTextRef :=
         (if rawTranscript s \<noteq> rendered_rawTranscript s then rawTranscript s else latestTextRef s),
       rendered_rawTranscript := rawTranscript s,
       rendered_isSpeaking := isSpeaking s\<rparr>"

subsection \<open>Handlers of the recognition object\<close>

text \<open>
  \<open>onresult\<close>: the argument lists the transcripts of the first alternative of
  \<open>event.results\<close>; reading the last entry of an empty list throws before any update.
\<close>

definition onresult :: "string list \<Rightarrow> kuro \<Rightarrow> kuro" where
  "onresult results s =
     (if results = [] then s
      else
        let text = trim (last results);
            s1 = s\<lparr>rawTranscript := text\<rparr>;
            s2 = (case silenceTimerRef s1 of None \<Rightarrow> s1 | Some t \<Rightarrow> clearTimeout t s1);
            (t', s3) = setTimeout SilenceStop s2
        in s3\<lparr>silenceTimerRef := Some t'\<rparr>)"

definition onend :: "kuro \<Rightarrow> kuro" where
  "onend s =
     (let s1 = s\<lparr>isListening := False\<rparr>;
          s2 = (case silenceTimerRef s1 of None \<Rightarrow> s1 | Some t \<Rightarrow> clearTimeout t s1);
          final = trim (latestTextRef s2)
      in if final \<noteq> [] then s2\<lparr>transcript := final, rawTranscript := []\<rparr> else s2)"

definition onerror :: "string \<Rightarrow> kuro \<Rightarrow> kuro" where
  "onerror e s =
     (if e = ''aborted'' then s
      else if e = ''no-speech'' then s\<lparr>isListening := False\<rparr>
      else s\<lparr>error := Some (''Error: '' @ e), isListening := False\<rparr>)"

text \<open>The callback of the silence timer: \<open>recognition.stop()\<close>.\<close>

definition silence_detected :: "kuro \<Rightarrow> kuro" where
  "silence_detected s = s\<lparr>recognitionRef := map_option recognition_stop (recognitionRef s)\<rparr>"

subsection \<open>The operations\<close>

text \<open>
  \<open>cancelSpeech\<close> pauses and rewinds the element \<open>audioRef\<close> references and drops the
  reference.  \<open>synthRef.current.cancel()\<close> has nothing to cancel, since this hook never
  queues an utterance on \<open>speechSynthesis\<close>.
\<close>

definition cancelSpeech :: "kuro \<Rightarrow> kuro" where
  "cancelSpeech s =
     (let s1 = (case audioRef s of
                  None \<Rightarrow> s
                | Some a \<Rightarrow>
                    s\<lparr>speeches := (speeches s)[a := (speeches s ! a)\<lparr>playing := False, currentTime := 0\<rparr>],
                      audioRef := None\<rparr>)
      in s1\<lparr>isSpeaking := False\<rparr>)"

text \<open>
  \<open>start\<close> is two statements.  The first cancels the speech when the \<open>isSpeaking\<close> the
  callback has closed over is true.  The second, \<open>arm_capture\<close>, clears the buffers and
  starts the recognition object; its first argument tells what
  \<open>recognitionRef.current.start()\<close> does: \<open>None\<close> when it returns, \<open>Some err\<close> when
  it throws and \<open>String(err)\<close> is \<open>err\<close>.
\<close>

definition arm_capture :: "string option \<Rightarrow> kuro \<Rightarrow> kuro" where
  "arm_capture thrown s =
     (case recognitionRef s of
        None \<Rightarrow> s
      | Some r \<Rightarrow>
          let s1 = s\<lparr>transcript := [], rawTranscript := [], latestTextRef := [], error := None\<rparr>
          in (case thrown of
                None \<Rightarrow> s1\<lparr>recognitionRef := Some Capturing, isListening := True\<rparr>
              | Some err \<Rightarrow>
                  if str_includes err ''already started'' then s1\<lparr>isListening := True\<rparr>
                  else s1\<lparr>error := Some ''Failed to start listening'', isListening := False\<rparr>))"

definition start_with :: "string option \<Rightarrow> kuro \<Rightarrow> kuro" where
  "start_with thrown s = arm_capture thrown (if rendered_isSpeaking s then cancelSpeech s else s)"

text \<open>\<open>start\<close> against the recognition object of the browser.\<close>

definition start :: "kuro \<Rightarrow> kuro" where
  "start s =
     start_with (case recognitionRef s of None \<Rightarrow> None | Some r \<Rightarrow> recognition_start r) s"

definition stop :: "kuro \<Rightarrow> kuro" where
  "stop s =
     (case recognitionRef s of
        None \<Rightarrow> s
      | Some r \<Rightarrow> s\<lparr>recognitionRef := Some (recognition_stop r), isListening := False\<rparr>)"

text \<open>
  \<open>speak\<close> up to its first \<open>await\<close>: the previous playback is cancelled, \<open>isSpeaking\<close> is
  set and the request is issued.  The new job is the last entry of \<open>speeches\<close>.
\<close>

definition speak :: "string \<Rightarrow> kuro \<Rightarrow> kuro" where
  "speak txt s =
     (let s1 = cancelSpeech s;
          s2 = s1\<lparr>isSpeaking := True\<rparr>
      in s2\<lparr>speeches := speeches s2 @
            [\<lparr>spoken = txt, fetching = True, promise = Pending, has_audio = False,
              duration = None, playing = False, currentTime = 0, url_revoked = False\<rparr>]\<rparr>)"

text \<open>
  The continuation of \<open>speak\<close> number \<open>j\<close> when \<open>fetch\<close> rejects, the response is not ok or
  the blob cannot be read: the \<open>catch\<close> block.
\<close>

definition fetch_failed :: "nat \<Rightarrow> kuro \<Rightarrow> kuro" where
  "fetch_failed j s =
     (if j < length (speeches s) \<and> fetching (speeches s ! j) then
        s\<lparr>speeches := (speeches s)[j := (speeches s ! j)\<lparr>fetching := False,
              promise := resolve 0 (promise (speeches s ! j))\<rparr>],
          isSpeaking := False\<rparr>
      else s)"

text \<open>
  The continuation when the audio bytes have arrived: the element is created and stored
  in \<open>audioRef\<close>, its handlers are set and the five-second fallback is armed.
\<close>

definition fetch_ok :: "nat \<Rightarrow> kuro \<Rightarrow> kuro" where
  "fetch_ok j s =
     (if j < length (speeches s) \<and> fetching (speeches s ! j) then
        let s1 = s\<lparr>speeches := (speeches s)[j := (speeches s ! j)\<lparr>fetching := False, has_audio := True\<rparr>],
                  audioRef := Some j\<rparr>
        in snd (setTimeout (DurationFallback j) s1)
      else s)"

text \<open>
  \<open>audio.onloadedmetadata\<close> with the duration in seconds; \<open>autoplay\<close> tells whether
  \<open>audio.play()\<close> succeeds (its rejection is only logged).
\<close>

definition onloadedmetadata :: "nat \<Rightarrow> real \<Rightarrow> bool \<Rightarrow> kuro \<Rightarrow> kuro" where
  "onloadedmetadata j d autoplay s =
     (if j < length (speeches s) \<and> has_audio (speeches s ! j) \<and> duration (speeches s ! j) = None then
        s\<lparr>speeches := (speeches s)[j := (speeches s ! j)\<lparr>duration := Some d,
              promise := resolve (d * 1000) (promise (speeches s ! j)),
              playing := autoplay\<rparr>]\<rparr>
      else s)"

text \<open>
  \<open>audio.onended\<close> and \<open>audio.onerror\<close>.  The browser fires \<open>ended\<close> on an element that is
  playing; after either event the element no longer plays.
\<close>

definition onended :: "nat \<Rightarrow> kuro \<Rightarrow> kuro" where
  "onended j s =
     (if j < length (speeches s) \<and> has_audio (speeches s ! j) \<and> playing (speeches s ! j) then
        s\<lparr>speeches := (speeches s)[j := (speeches s ! j)\<lparr>url_revoked := True, playing := False\<rparr>],
          isSpeaking := False,
          audioRef := None\<rparr>
      else s)"

definition audio_onerror :: "nat \<Rightarrow> kuro \<Rightarrow> kuro" where
  "audio_onerror j s =
     (if j < length (speeches s) \<and> has_audio (speeches s ! j) then
        s\<lparr>speeches := (speeches s)[j := (speeches s ! j)\<lparr>playing := False,
              promise := resolve 0 (promise (speeches s ! j))\<rparr>],
          isSpeaking := False,
          audioRef := None\<rparr>
      else s)"

text \<open>The fallback callback: \<open>if (!audio.duration) resolve(0)\<close>.\<close>

definition duration_fallback :: "nat \<Rightarrow> kuro \<Rightarrow> kuro" where
  "duration_fallback j s =
     (if j < length (speeches s) \<and>
         (duration (speeches s ! j) = None \<or> duration (speeches s ! j) = Some 0) then
        s\<lparr>speeches := (speeches s)[j := (speeches s ! j)\<lparr>promise := resolve 0 (promise (speeches s ! j))\<rparr>]\<rparr>
      else s)"

text \<open>A pending timer fires: it leaves the pending list and its callback runs.\<close>

definition fire_timer :: "nat \<Rightarrow> kuro \<Rightarrow> kuro" where
  "fire_timer t s =
     (case map_of (timers s) t of
        None \<Rightarrow> s
      | Some cb \<Rightarrow>
          let s1 = clearTimeout t s
          in (case cb of SilenceStop \<Rightarrow> silence_detected s1 | DurationFallback j \<Rightarrow> duration_fallback j s1))"

section \<open>Runs\<close>

text \<open>
  What can happen to a mounted hook: a commit of React, a call of one of the four
  operations, an event of the recognition object, a timer that fires, the outcome of a
  request to the TTS service, an event of an audio element.  The recognition object
  delivers results and errors only during a session, and \<open>end\<close> once, when the session is
  over.
\<close>

datatype event =
    Render
  | Start
  | Stop
  | Speak string
  | CancelSpeech
  | Result "string list"
  | RecognitionError string
  | End
  | TimerFires nat
  | FetchFailed nat
  | FetchOk nat
  | LoadedMetadata nat real bool
  | AudioEnded nat
  | AudioError nat

definition in_session :: "kuro \<Rightarrow> bool" where
  "in_session s = (recognitionRef s = Some Capturing \<or> recognitionRef s = Some Stopping)"

definition capture_ended :: "kuro \<Rightarrow> kuro" where
  "capture_ended s = (if in_session s then onend (s\<lparr>recognitionRef := Some Inactive\<rparr>) else s)"

fun step :: "kuro \<Rightarrow> event \<Rightarrow> kuro" where
  "step s Render = render s"
| "step s Start = start s"
| "step s Stop = stop s"
| "step s (Speak txt) = speak txt s"
| "step s CancelSpeech = cancelSpeech s"
| "step s (Result results) = (if in_session s then onresult results s else s)"
| "step s (RecognitionError e) = (if in_session s then onerror e s else s)"
| "step s End = capture_ended s"
| "step s (TimerFires t) = fire_timer t s"
| "step s (FetchFailed j) = fetch_failed j s"
| "step s (FetchOk j) = fetch_ok j s"
| "step s (LoadedMetadata j d autoplay) = onloadedmetadata j d autoplay s"
| "step s (AudioEnded j) = onended j s"
| "step s (AudioError j) = audio_onerror j s"

definition run :: "kuro \<Rightarrow> event list \<Rightarrow> kuro" where
  "run s evs = foldl step s evs"

definition mounted :: kuro where
  "mounted = mount True initial"

section \<open>Predicates used in the statements\<close>

definition is_resolved :: "promise \<Rightarrow> bool" where
  "is_resolved p = (case p of Resolved v \<Rightarrow> True | _ \<Rightarrow> False)"

text \<open>The five-second fallback of job \<open>j\<close> is pending.\<close>

definition armed :: "nat \<Rightarrow> kuro \<Rightarrow> bool" where
  "armed j s = (DurationFallback j \<in> set (map snd (timers s)))"

text \<open>
  Timer identifiers are fresh and unique, \<open>silenceTimerRef\<close> names a silence timer, and
  every pending silence timer is the one \<open>silenceTimerRef\<close> names.
\<close>

definition timers_ok :: "kuro \<Rightarrow> bool" where
  "timers_ok s \<longleftrightarrow>
     (\<forall>(i, cb) \<in> set (timers s). i < next_timer s) \<and>
     distinct (map fst (timers s)) \<and>
     (\<forall>t. silenceTimerRef s = Some t \<longrightarrow>
          t < next_timer s \<and> (\<forall>cb. (t, cb) \<in> set (timers s) \<longrightarrow> cb = SilenceStop)) \<and>
     (\<forall>t. (t, SilenceStop) \<in> set (timers s) \<longrightarrow> silenceTimerRef s = Some t)"

text \<open>
  The phases of a speech job: while the request is in flight the promise is pending and
  there is no element and no duration; a failed request has resolved with 0; an element whose promise is
  still pending has no duration yet and its fallback is pending.  Fallback timers belong
  to jobs that have an element.
\<close>

definition speech_ok :: "kuro \<Rightarrow> nat \<Rightarrow> bool" where
  "speech_ok s j \<longleftrightarrow>
     promise (speeches s ! j) \<noteq> Rejected \<and>
     (fetching (speeches s ! j) \<longrightarrow>
        promise (speeches s ! j) = Pending \<and> \<not> has_audio (speeches s ! j) \<and>
        duration (speeches s ! j) = None) \<and>
     (\<not> fetching (speeches s ! j) \<and> \<not> has_audio (speeches s ! j) \<longrightarrow>
        promise (speeches s ! j) = Resolved 0) \<and>
     (has_audio (speeches s ! j) \<and> promise (speeches s ! j) = Pending \<longrightarrow>
        armed j s \<and> duration (speeches s ! j) = None)"

definition speeches_ok :: "kuro \<Rightarrow> bool" where
  "speeches_ok s \<longleftrightarrow>
     (\<forall>j < length (speeches s). speech_ok s j) \<and>
     (\<forall>(t, cb) \<in> set (timers s). \<forall>j. cb = DurationFallback j \<longrightarrow>
        j < length (speeches s) \<and> has_audio (speeches s ! j))"

section \<open>Auxiliary facts\<close>

subsection \<open>Trimming\<close>

lemma dropWhile_id: "xs = [] \<or> \<not> P (hd xs) \<Longrightarrow> dropWhile P xs = xs"
  by (cases xs) auto

lemma trim_head: "trim s \<noteq> [] \<Longrightarrow> \<not> is_space (hd (trim s))"
proof -
  assume ne: "trim s \<noteq> []"
  define u where "u = dropWhile is_space s"
  have split: "u = trim s @ rev (takeWhile is_space (rev u))"
  proof -
    have "trim s @ rev (takeWhile is_space (rev u)) =
            rev (takeWhile is_space (rev u) @ dropWhile is_space (rev u))"
      by (simp only: trim_def u_def rev_append)
    also have "\<dots> = rev (rev u)"
      by (simp only: takeWhile_dropWhile_id)
    finally show ?thesis by simp
  qed
  with ne have "u \<noteq> []" by auto
  then have "\<not> is_space (hd u)"
    unfolding u_def by (rule hd_dropWhile)
  moreover from split ne have "hd u = hd (trim s)"
    by (metis hd_append2)
  ultimately show ?thesis by simp
qed

lemma trim_last: "trim s \<noteq> [] \<Longrightarrow> \<not> is_space (last (trim s))"
proof -
  assume ne: "trim s \<noteq> []"
  then have "dropWhile is_space (rev (dropWhile is_space s)) \<noteq> []"
    by (simp add: trim_def)
  then have "\<not> is_space (hd (dropWhile is_space (rev (dropWhile is_space s))))"
    by (rule hd_dropWhile)
  with ne show ?thesis
    by (simp add: trim_def last_rev)
qed

lemma trim_idem: "trim (trim s) = trim s"
proof (cases "trim s = []")
  case True
  have "trim [] = []" by (simp add: trim_def)
  with True show ?thesis by simp
next
  case False
  have a: "dropWhile is_space (trim s) = trim s"
    using trim_head [OF False] by (intro dropWhile_id) simp
  have "hd (rev (trim s)) = last (trim s)"
    using False by (simp add: hd_rev)
  then have b: "dropWhile is_space (rev (trim s)) = rev (trim s)"
    using trim_last [OF False] by (intro dropWhile_id) simp
  show ?thesis
    unfolding trim_def [of "trim s"] a b by simp
qed

subsection \<open>The timer invariant holds in every reachable state\<close>

lemma timers_ok_mount: "timers_ok (mount supported initial)"
  by (simp add: timers_ok_def mount_def initial_def)

lemma distinct_filter_fst: "distinct (map fst xs) \<Longrightarrow> distinct (map fst (filter P xs))"
  by (induction xs) auto

lemma timers_ok_clearTimeout: "timers_ok s \<Longrightarrow> timers_ok (clearTimeout t s)"
  by (auto simp: timers_ok_def clearTimeout_def distinct_filter_fst)

lemma timers_ok_onresult: "timers_ok s \<Longrightarrow> timers_ok (onresult results s)"
  by (fastforce simp: timers_ok_def onresult_def clearTimeout_def setTimeout_def Let_def distinct_filter_fst
      split: option.splits)

lemma timers_ok_onend: "timers_ok s \<Longrightarrow> timers_ok (onend s)"
  by (auto simp: timers_ok_def onend_def clearTimeout_def Let_def distinct_filter_fst
      split: option.splits)

lemma timers_ok_capture_ended: "timers_ok s \<Longrightarrow> timers_ok (capture_ended s)"
proof -
  assume a: "timers_ok s"
  then have "timers_ok (s\<lparr>recognitionRef := Some Inactive\<rparr>)"
    by (simp add: timers_ok_def)
  then show ?thesis
    using a by (simp add: capture_ended_def timers_ok_onend)
qed

lemma timers_ok_silence_detected: "timers_ok s \<Longrightarrow> timers_ok (silence_detected s)"
  by (simp add: timers_ok_def silence_detected_def)

lemma timers_ok_duration_fallback: "timers_ok s \<Longrightarrow> timers_ok (duration_fallback j s)"
  by (simp add: timers_ok_def duration_fallback_def)

lemma timers_ok_fire_timer: "timers_ok s \<Longrightarrow> timers_ok (fire_timer t s)"
  by (simp add: fire_timer_def Let_def timers_ok_clearTimeout timers_ok_silence_detected
      timers_ok_duration_fallback split: option.splits timer_cb.splits)

lemma timers_ok_fetch_ok: "timers_ok s \<Longrightarrow> timers_ok (fetch_ok j s)"
  by (fastforce simp: timers_ok_def fetch_ok_def setTimeout_def Let_def)

lemma timers_ok_cancelSpeech: "timers_ok s \<Longrightarrow> timers_ok (cancelSpeech s)"
  by (auto simp: timers_ok_def cancelSpeech_def Let_def split: option.splits)

lemma timers_ok_start: "timers_ok s \<Longrightarrow> timers_ok (start s)"
  by (auto simp: timers_ok_def start_def start_with_def arm_capture_def cancelSpeech_def Let_def split: option.splits)

lemma timers_ok_step:
  assumes "timers_ok s"
  shows "timers_ok (step s ev)"
proof (cases ev)
  case Render
  with assms show ?thesis by (simp add: timers_ok_def render_def)
next
  case Start
  with assms show ?thesis by (simp add: timers_ok_start)
next
  case Stop
  with assms show ?thesis by (auto simp: timers_ok_def stop_def split: option.splits)
next
  case (Speak u)
  with assms show ?thesis
    by (auto simp: timers_ok_def speak_def cancelSpeech_def Let_def split: option.splits)
next
  case CancelSpeech
  with assms show ?thesis by (simp add: timers_ok_cancelSpeech)
next
  case (Result rs)
  with assms show ?thesis by (simp add: timers_ok_onresult)
next
  case (RecognitionError e)
  with assms show ?thesis by (simp add: timers_ok_def onerror_def)
next
  case End
  with assms show ?thesis by (simp add: timers_ok_capture_ended)
next
  case (TimerFires t)
  with assms show ?thesis by (simp add: timers_ok_fire_timer)
next
  case (FetchFailed j)
  with assms show ?thesis by (simp add: timers_ok_def fetch_failed_def)
next
  case (FetchOk j)
  with assms show ?thesis by (simp add: timers_ok_fetch_ok)
next
  case (LoadedMetadata j d a)
  with assms show ?thesis by (simp add: timers_ok_def onloadedmetadata_def)
next
  case (AudioEnded j)
  with assms show ?thesis by (simp add: timers_ok_def onended_def)
next
  case (AudioError j)
  with assms show ?thesis by (simp add: timers_ok_def audio_onerror_def)
qed



subsection \<open>The invariant of the speech jobs\<close>

lemma nth_update_if: "j < length xs \<Longrightarrow> (xs[a := v]) ! j = (if a = j then v else xs ! j)"
  by (cases "a = j") simp_all

lemma armed_iff: "armed j s \<longleftrightarrow> (\<exists>t. (t, DurationFallback j) \<in> set (timers s))"
  by (force simp: armed_def)

lemma speeches_ok_mount: "speeches_ok (mount supported initial)"
  by (simp add: speeches_ok_def mount_def initial_def)

lemma speeches_ok_render: "speeches_ok s \<Longrightarrow> speeches_ok (render s)"
  by (simp add: speeches_ok_def speech_ok_def armed_def render_def)

lemma speeches_ok_cancelSpeech: "speeches_ok s \<Longrightarrow> speeches_ok (cancelSpeech s)"
  by (auto simp: speeches_ok_def speech_ok_def armed_def cancelSpeech_def Let_def nth_update_if
      split: option.splits)

lemma speeches_ok_arm_capture: "speeches_ok s \<Longrightarrow> speeches_ok (arm_capture thrown s)"
  by (auto simp: speeches_ok_def speech_ok_def armed_def arm_capture_def Let_def
      split: option.splits)

lemma speeches_ok_start: "speeches_ok s \<Longrightarrow> speeches_ok (start s)"
  by (simp add: start_def start_with_def speeches_ok_arm_capture speeches_ok_cancelSpeech)

lemma speeches_ok_stop: "speeches_ok s \<Longrightarrow> speeches_ok (stop s)"
  by (auto simp: speeches_ok_def speech_ok_def armed_def stop_def split: option.splits)

lemma speeches_ok_append:
  assumes "speeches_ok s"
  shows "speeches_ok (s\<lparr>isSpeaking := True, speeches := speeches s @
            [\<lparr>spoken = u, fetching = True, promise = Pending, has_audio = False,
              duration = None, playing = False, currentTime = 0, url_revoked = False\<rparr>]\<rparr>)"
  using assms
  by (auto simp: speeches_ok_def speech_ok_def armed_def nth_append less_Suc_eq)

lemma speeches_ok_speak: "speeches_ok s \<Longrightarrow> speeches_ok (speak u s)"
  using speeches_ok_append [OF speeches_ok_cancelSpeech, of s u]
  by (simp add: speak_def Let_def)

lemma speeches_ok_onerror: "speeches_ok s \<Longrightarrow> speeches_ok (onerror e s)"
  by (simp add: speeches_ok_def speech_ok_def armed_def onerror_def)

lemma speeches_ok_fetch_failed: "speeches_ok s \<Longrightarrow> speeches_ok (fetch_failed j s)"
  by (auto simp: speeches_ok_def speech_ok_def armed_def fetch_failed_def resolve_def nth_update_if)

lemma speeches_ok_fetch_ok: "speeches_ok s \<Longrightarrow> speeches_ok (fetch_ok j s)"
  by (auto simp: speeches_ok_def speech_ok_def armed_def fetch_ok_def setTimeout_def Let_def nth_update_if)

lemma speeches_ok_onloadedmetadata: "speeches_ok s \<Longrightarrow> speeches_ok (onloadedmetadata j d a s)"
  by (auto simp: speeches_ok_def speech_ok_def armed_def onloadedmetadata_def resolve_def nth_update_if
      split: promise.splits)

lemma speeches_ok_onended: "speeches_ok s \<Longrightarrow> speeches_ok (onended j s)"
  by (auto simp: speeches_ok_def speech_ok_def armed_def onended_def nth_update_if)

lemma speeches_ok_audio_onerror: "speeches_ok s \<Longrightarrow> speeches_ok (audio_onerror j s)"
  by (auto simp: speeches_ok_def speech_ok_def armed_def audio_onerror_def resolve_def nth_update_if
      split: promise.splits)

lemma timers_unique:
  "distinct (map fst xs) \<Longrightarrow> (t, a) \<in> set xs \<Longrightarrow> (t, b) \<in> set xs \<Longrightarrow> a = b"
  by (metis map_of_eq_Some_iff option.inject)

lemma armed_clearTimeout:
  assumes "distinct (map fst (timers s))" and "(t, cb) \<in> set (timers s)"
    and "cb \<noteq> DurationFallback j" and "armed j s"
  shows "armed j (clearTimeout t s)"
proof -
  from assms(4) obtain t' where t': "(t', DurationFallback j) \<in> set (timers s)"
    by (auto simp: armed_iff)
  with assms(1-3) have "t' \<noteq> t"
    using timers_unique by fastforce
  with t' show ?thesis
    by (auto simp: armed_iff clearTimeout_def)
qed

lemma armed_clearTimeout_absent:
  assumes "t \<notin> fst ` set (timers s)" and "armed j s"
  shows "armed j (clearTimeout t s)"
  using assms by (force simp: armed_iff clearTimeout_def)

lemma speeches_ok_clearTimeout:
  assumes ok: "speeches_ok s" and d: "distinct (map fst (timers s))"
    and cb: "\<forall>cb. (t, cb) \<in> set (timers s) \<longrightarrow> cb = SilenceStop"
  shows "speeches_ok (clearTimeout t s)"
proof -
  have keep: "armed j (clearTimeout t s)" if "armed j s" for j
  proof (cases "t \<in> fst ` set (timers s)")
    case True
    then obtain c where c: "(t, c) \<in> set (timers s)" by auto
    with cb have "c = SilenceStop" by simp
    with c d that show ?thesis
      by (intro armed_clearTimeout [of s t c]) simp_all
  next
    case False
    with that show ?thesis by (rule armed_clearTimeout_absent [rotated])
  qed
  have same: "speeches (clearTimeout t s) = speeches s"
    by (simp add: clearTimeout_def)
  have "speech_ok (clearTimeout t s) j" if "j < length (speeches s)" for j
    using ok that keep [of j] unfolding speeches_ok_def speech_ok_def same by blast
  moreover have "\<forall>(t', c) \<in> set (timers (clearTimeout t s)). \<forall>j. c = DurationFallback j \<longrightarrow>
        j < length (speeches s) \<and> has_audio (speeches s ! j)"
    using ok by (auto simp: speeches_ok_def clearTimeout_def)
  ultimately show ?thesis
    unfolding speeches_ok_def same by blast
qed

lemma speeches_ok_clear_silence:
  assumes "speeches_ok s" and "timers_ok s"
  shows "speeches_ok (case silenceTimerRef s of None \<Rightarrow> s | Some t \<Rightarrow> clearTimeout t s)"
proof (cases "silenceTimerRef s")
  case None
  with assms show ?thesis by simp
next
  case (Some t)
  with assms(2) have "distinct (map fst (timers s))"
    and "\<forall>cb. (t, cb) \<in> set (timers s) \<longrightarrow> cb = SilenceStop"
    by (auto simp: timers_ok_def)
  with assms(1) Some show ?thesis
    by (simp add: speeches_ok_clearTimeout)
qed

lemma speeches_ok_setTimeout_silence:
  "speeches_ok s \<Longrightarrow> speeches_ok ((snd (setTimeout SilenceStop s))\<lparr>silenceTimerRef := r\<rparr>)"
  by (auto simp: speeches_ok_def speech_ok_def armed_def setTimeout_def)

lemma speeches_ok_onresult:
  assumes "speeches_ok s" and "timers_ok s"
  shows "speeches_ok (onresult results s)"
proof (cases "results = []")
  case True
  with assms show ?thesis by (simp add: onresult_def)
next
  case False
  define s1 where "s1 = s\<lparr>rawTranscript := trim (last results)\<rparr>"
  define s2 where "s2 = (case silenceTimerRef s1 of None \<Rightarrow> s1 | Some t \<Rightarrow> clearTimeout t s1)"
  have "speeches_ok s1" and "timers_ok s1"
    using assms by (simp_all add: s1_def speeches_ok_def speech_ok_def armed_def timers_ok_def)
  then have "speeches_ok s2"
    unfolding s2_def by (rule speeches_ok_clear_silence)
  then have "speeches_ok ((snd (setTimeout SilenceStop s2))\<lparr>silenceTimerRef := Some (fst (setTimeout SilenceStop s2))\<rparr>)"
    by (rule speeches_ok_setTimeout_silence)
  moreover have "onresult results s =
      (snd (setTimeout SilenceStop s2))\<lparr>silenceTimerRef := Some (fst (setTimeout SilenceStop s2))\<rparr>"
    unfolding s2_def s1_def using False by (simp add: onresult_def Let_def split_beta)
  ultimately show ?thesis by simp
qed

lemma speeches_ok_commit:
  "speeches_ok s \<Longrightarrow> speeches_ok (s\<lparr>transcript := a, rawTranscript := b\<rparr>)"
  by (simp add: speeches_ok_def speech_ok_def armed_def)

lemma speeches_ok_onend:
  assumes "speeches_ok s" and "timers_ok s"
  shows "speeches_ok (onend s)"
proof -
  define s1 where "s1 = s\<lparr>isListening := False\<rparr>"
  define s2 where "s2 = (case silenceTimerRef s1 of None \<Rightarrow> s1 | Some t \<Rightarrow> clearTimeout t s1)"
  have "speeches_ok s1" and "timers_ok s1"
    using assms by (simp_all add: s1_def speeches_ok_def speech_ok_def armed_def timers_ok_def)
  then have ok: "speeches_ok s2"
    unfolding s2_def by (rule speeches_ok_clear_silence)
  have "onend s = (if trim (latestTextRef s2) \<noteq> []
                  then s2\<lparr>transcript := trim (latestTextRef s2), rawTranscript := []\<rparr> else s2)"
    unfolding s2_def s1_def by (simp add: onend_def Let_def)
  with ok show ?thesis
    by (simp add: speeches_ok_commit)
qed

lemma speeches_ok_capture_ended:
  assumes "speeches_ok s" and "timers_ok s"
  shows "speeches_ok (capture_ended s)"
proof -
  have "speeches_ok (s\<lparr>recognitionRef := Some Inactive\<rparr>)"
    and "timers_ok (s\<lparr>recognitionRef := Some Inactive\<rparr>)"
    using assms by (simp_all add: speeches_ok_def speech_ok_def armed_def timers_ok_def)
  then show ?thesis
    using assms(1) by (simp add: capture_ended_def speeches_ok_onend)
qed

lemma speeches_ok_silence_detected: "speeches_ok s \<Longrightarrow> speeches_ok (silence_detected s)"
  by (simp add: speeches_ok_def speech_ok_def armed_def silence_detected_def)

lemma fallback_timer_job:
  "speeches_ok s \<Longrightarrow> (t, DurationFallback j) \<in> set (timers s) \<Longrightarrow>
     j < length (speeches s) \<and> has_audio (speeches s ! j)"
  unfolding speeches_ok_def by (elim conjE) (drule (1) bspec, simp)

lemma duration_fallback_nth:
  "j < length (speeches s) \<Longrightarrow>
     speeches (duration_fallback j s) ! k =
       (if k = j \<and> (duration (speeches s ! j) = None \<or> duration (speeches s ! j) = Some 0)
        then (speeches s ! j)\<lparr>promise := resolve 0 (promise (speeches s ! j))\<rparr>
        else speeches s ! k)"
  by (simp add: duration_fallback_def)

lemma speech_ok_after_fallback:
  assumes okj: "speech_ok s j" and audio: "has_audio (speeches s ! j)"
    and sp: "speeches s' ! j =
       (if duration (speeches s ! j) = None \<or> duration (speeches s ! j) = Some 0
        then (speeches s ! j)\<lparr>promise := resolve 0 (promise (speeches s ! j))\<rparr>
        else speeches s ! j)"
  shows "speech_ok s' j"
proof -
  let ?p = "speeches s ! j"
  from okj audio have nf: "\<not> fetching ?p" and nr: "promise ?p \<noteq> Rejected"
    and pd: "promise ?p = Pending \<longrightarrow> duration ?p = None"
    unfolding speech_ok_def by blast+
  show ?thesis
  proof (cases "duration ?p = None \<or> duration ?p = Some 0")
    case True
    then have e: "speeches s' ! j = ?p\<lparr>promise := resolve 0 (promise ?p)\<rparr>"
      using sp by simp
    have "resolve 0 (promise ?p) \<noteq> Pending" and "resolve 0 (promise ?p) \<noteq> Rejected"
      using nr by (cases "promise ?p"; simp add: resolve_def)+
    then show ?thesis
      unfolding speech_ok_def e using nf audio by simp
  next
    case False
    have e: "speeches s' ! j = ?p"
      by (simp only: sp if_not_P [OF False])
    from False pd have "promise ?p \<noteq> Pending" by blast
    then show ?thesis
      unfolding speech_ok_def e using nf audio nr by simp
  qed
qed

lemma speeches_ok_fallback_fires:
  assumes ok: "speeches_ok s" and d: "distinct (map fst (timers s))"
    and t: "(t, DurationFallback j) \<in> set (timers s)"
  shows "speeches_ok (duration_fallback j (clearTimeout t s))"
proof -
  let ?s1 = "clearTimeout t s"
  let ?s2 = "duration_fallback j ?s1"
  from fallback_timer_job [OF ok t]
  have j: "j < length (speeches s)" and audio: "has_audio (speeches s ! j)"
    by simp_all
  have s1: "speeches ?s1 = speeches s"
    by (simp add: clearTimeout_def)
  have len: "length (speeches ?s2) = length (speeches s)"
    by (simp add: duration_fallback_def clearTimeout_def)
  have tm: "timers ?s2 = timers ?s1"
    by (simp add: duration_fallback_def)
  have nth: "speeches ?s2 ! k =
       (if k = j \<and> (duration (speeches s ! j) = None \<or> duration (speeches s ! j) = Some 0)
        then (speeches s ! j)\<lparr>promise := resolve 0 (promise (speeches s ! j))\<rparr>
        else speeches s ! k)" for k
    using duration_fallback_nth [of j ?s1 k] j unfolding s1 by simp
  have armed_other: "armed k ?s2" if "armed k s" and "k \<noteq> j" for k
  proof -
    have "armed k ?s1"
      using d t that by (intro armed_clearTimeout [of s t "DurationFallback j"]) simp_all
    then show ?thesis
      by (simp add: armed_def tm)
  qed
  have jobs: "speech_ok ?s2 k" if k: "k < length (speeches s)" for k
  proof (cases "k = j")
    case True
    from ok j have okj: "speech_ok s j"
      by (simp add: speeches_ok_def)
    have "speech_ok ?s2 j"
      using okj audio by (rule speech_ok_after_fallback) (simp add: nth)
    with True show ?thesis by simp
  next
    case False
    from ok k have "speech_ok s k"
      by (simp add: speeches_ok_def)
    moreover have "speeches ?s2 ! k = speeches s ! k"
      using False by (simp add: nth)
    ultimately show ?thesis
      using armed_other [of k] False unfolding speech_ok_def by metis
  qed
  have tms: "k < length (speeches ?s2) \<and> has_audio (speeches ?s2 ! k)"
    if m: "(t', DurationFallback k) \<in> set (timers ?s2)" for t' k
  proof -
    from m have "(t', DurationFallback k) \<in> set (timers s)"
      unfolding tm by (simp add: clearTimeout_def)
    from fallback_timer_job [OF ok this]
    have "k < length (speeches s)" and "has_audio (speeches s ! k)"
      by simp_all
    moreover have "has_audio (speeches ?s2 ! k) = has_audio (speeches s ! k)"
      by (simp add: nth)
    ultimately show ?thesis
      by (simp add: len)
  qed
  show ?thesis
    unfolding speeches_ok_def
  proof (intro conjI allI impI ballI)
    fix k
    assume "k < length (speeches ?s2)"
    then show "speech_ok ?s2 k"
      using jobs by (simp add: len)
  next
    fix x
    assume x: "x \<in> set (timers ?s2)"
    obtain t' c where xc: "x = (t', c)"
      by (cases x)
    show "case x of (t', c) \<Rightarrow> \<forall>k. c = DurationFallback k \<longrightarrow>
        k < length (speeches ?s2) \<and> has_audio (speeches ?s2 ! k)"
      using x tms unfolding xc by blast
  qed
qed

lemma speeches_ok_fire_timer:
  assumes ok: "speeches_ok s" and tok: "timers_ok s"
  shows "speeches_ok (fire_timer t s)"
proof (cases "map_of (timers s) t")
  case None
  with ok show ?thesis by (simp add: fire_timer_def)
next
  case (Some cb)
  from tok have d: "distinct (map fst (timers s))"
    by (simp add: timers_ok_def)
  from Some have mem: "(t, cb) \<in> set (timers s)"
    by (rule map_of_SomeD)
  show ?thesis
  proof (cases cb)
    case SilenceStop
    have "\<forall>c. (t, c) \<in> set (timers s) \<longrightarrow> c = SilenceStop"
      using timers_unique [OF d] mem SilenceStop by blast
    with ok d have "speeches_ok (clearTimeout t s)"
      by (rule speeches_ok_clearTimeout)
    then show ?thesis
      using Some SilenceStop by (simp add: fire_timer_def Let_def speeches_ok_silence_detected)
  next
    case (DurationFallback j)
    with mem have "(t, DurationFallback j) \<in> set (timers s)" by simp
    with ok d have "speeches_ok (duration_fallback j (clearTimeout t s))"
      by (rule speeches_ok_fallback_fires)
    then show ?thesis
      using Some DurationFallback by (simp add: fire_timer_def Let_def)
  qed
qed

lemma speeches_ok_step:
  assumes "speeches_ok s" and "timers_ok s"
  shows "speeches_ok (step s ev)"
proof (cases ev)
  case Render
  with assms show ?thesis by (simp add: speeches_ok_render)
next
  case Start
  with assms show ?thesis by (simp add: speeches_ok_start)
next
  case Stop
  with assms show ?thesis by (simp add: speeches_ok_stop)
next
  case (Speak u)
  with assms show ?thesis by (simp add: speeches_ok_speak)
next
  case CancelSpeech
  with assms show ?thesis by (simp add: speeches_ok_cancelSpeech)
next
  case (Result rs)
  with assms show ?thesis by (simp add: speeches_ok_onresult)
next
  case (RecognitionError e)
  with assms show ?thesis by (simp add: speeches_ok_onerror)
next
  case End
  with assms show ?thesis by (simp add: speeches_ok_capture_ended)
next
  case (TimerFires t)
  with assms show ?thesis by (simp add: speeches_ok_fire_timer)
next
  case (FetchFailed j)
  with assms show ?thesis by (simp add: speeches_ok_fetch_failed)
next
  case (FetchOk j)
  with assms show ?thesis by (simp add: speeches_ok_fetch_ok)
next
  case (LoadedMetadata j d a)
  with assms show ?thesis by (simp add: speeches_ok_onloadedmetadata)
next
  case (AudioEnded j)
  with assms show ?thesis by (simp add: speeches_ok_onended)
next
  case (AudioError j)
  with assms show ?thesis by (simp add: speeches_ok_audio_onerror)
qed

lemma invariants_run:
  "timers_ok s \<Longrightarrow> speeches_ok s \<Longrightarrow> timers_ok (run s evs) \<and> speeches_ok (run s evs)"
  unfolding run_def
  by (induction evs arbitrary: s) (simp_all add: timers_ok_step speeches_ok_step)

subsection \<open>Silence timers\<close>















subsection \<open>Starting\<close>

lemma recognitionRef_cancelSpeech: "recognitionRef (cancelSpeech s) = recognitionRef s"
  by (simp add: cancelSpeech_def Let_def split: option.splits)

lemma arm_capture_thrown:
  assumes "recognitionRef s \<noteq> None"
  shows "error (arm_capture (Some err) s) =
           (if str_includes err ''already started'' then None else Some ''Failed to start listening'')"
    and "isListening (arm_capture (Some err) s) = str_includes err ''already started''"
  using assms by (cases "str_includes err ''already started''"; auto simp: arm_capture_def Let_def)+

lemma arm_capture_returned:
  assumes "recognitionRef s \<noteq> None"
  shows "error (arm_capture None s) = None" and "isListening (arm_capture None s)"
    and "recognitionRef (arm_capture None s) = Some Capturing"
  using assms by (auto simp: arm_capture_def Let_def)

lemma recognitionRef_arm_capture_thrown:
  "recognitionRef (arm_capture (Some err) s) = recognitionRef s"
  by (auto simp: arm_capture_def Let_def split: option.splits)

lemma includes_already_started: "str_includes already_started_message ''already started''"
  by (simp add: already_started_message_def)

lemma start_listens:
  assumes "recognitionRef s \<noteq> None"
  shows "error (start s) = None" and "isListening (start s)" and "recognitionRef (start s) \<noteq> None"
proof -
  define s0 where "s0 = (if rendered_isSpeaking s then cancelSpeech s else s)"
  have r0: "recognitionRef s0 = recognitionRef s"
    by (simp add: s0_def recognitionRef_cancelSpeech)
  from assms obtain r where r: "recognitionRef s = Some r" by auto
  have st: "start s = arm_capture (recognition_start r) s0"
    by (simp add: start_def start_with_def s0_def r)
  have ne: "recognitionRef s0 \<noteq> None"
    using r0 assms by simp
  show "error (start s) = None" and "isListening (start s)" and "recognitionRef (start s) \<noteq> None"
    unfolding st using ne
    by (simp_all add: recognition_start_def arm_capture_thrown arm_capture_returned
        recognitionRef_arm_capture_thrown includes_already_started)
qed

subsection \<open>Settling the promise of \<open>speak\<close>\<close>

lemma speech_phase:
  "speech_ok s j \<Longrightarrow>
     fetching (speeches s ! j) \<or> is_resolved (promise (speeches s ! j)) \<or> armed j s"
  unfolding speech_ok_def by (cases "promise (speeches s ! j)") (auto simp: is_resolved_def)

lemma fetch_failed_resolves:
  assumes "j < length (speeches s)" and "fetching (speeches s ! j)"
    and "promise (speeches s ! j) = Pending"
  shows "promise (speeches (fetch_failed j s) ! j) = Resolved 0" and "\<not> isSpeaking (fetch_failed j s)"
  using assms by (simp_all add: fetch_failed_def resolve_def)

lemma fetch_ok_arms:
  assumes "j < length (speeches s)" and "fetching (speeches s ! j)"
  shows "armed j (fetch_ok j s)"
  using assms by (simp add: fetch_ok_def armed_def setTimeout_def Let_def)

lemma audio_onerror_resolves:
  assumes "j < length (speeches s)" and "has_audio (speeches s ! j)"
    and "promise (speeches s ! j) \<noteq> Rejected"
  shows "is_resolved (promise (speeches (audio_onerror j s) ! j))"
    and "\<not> isSpeaking (audio_onerror j s)"
    and "promise (speeches s ! j) = Pending \<longrightarrow>
           promise (speeches (audio_onerror j s) ! j) = Resolved 0"
  using assms
  by (cases "promise (speeches s ! j)"; simp add: audio_onerror_def resolve_def is_resolved_def)+

lemma fallback_fires_resolves:
  assumes ok: "speeches_ok s" and tok: "timers_ok s"
    and t: "(t, DurationFallback j) \<in> set (timers s)"
  shows "is_resolved (promise (speeches (fire_timer t s) ! j))"
    and "promise (speeches s ! j) = Pending \<longrightarrow>
           promise (speeches (fire_timer t s) ! j) = Resolved 0"
proof -
  let ?p = "speeches s ! j"
  from fallback_timer_job [OF ok t]
  have j: "j < length (speeches s)" and audio: "has_audio ?p"
    by simp_all
  from ok j have okj: "speech_ok s j"
    by (simp add: speeches_ok_def)
  from okj audio have nr: "promise ?p \<noteq> Rejected"
    and pd: "promise ?p = Pending \<longrightarrow> duration ?p = None"
    unfolding speech_ok_def by blast+
  from tok have "distinct (map fst (timers s))"
    by (simp add: timers_ok_def)
  with t have "map_of (timers s) t = Some (DurationFallback j)"
    by simp
  then have f: "fire_timer t s = duration_fallback j (clearTimeout t s)"
    by (simp add: fire_timer_def Let_def)
  have s1: "speeches (clearTimeout t s) = speeches s"
    by (simp add: clearTimeout_def)
  have nth: "speeches (fire_timer t s) ! j =
       (if duration ?p = None \<or> duration ?p = Some 0
        then ?p\<lparr>promise := resolve 0 (promise ?p)\<rparr> else ?p)"
    unfolding f using duration_fallback_nth [of j "clearTimeout t s" j] j unfolding s1 by simp
  show "is_resolved (promise (speeches (fire_timer t s) ! j))"
    unfolding nth using nr pd
    by (cases "promise ?p") (auto simp: resolve_def is_resolved_def)
  show "promise ?p = Pending \<longrightarrow> promise (speeches (fire_timer t s) ! j) = Resolved 0"
    unfolding nth using pd by (auto simp: resolve_def)
qed

lemma speak_issues_request:
  "length (speeches (speak u s)) = Suc (length (speeches s)) \<and>
   fetching (speeches (speak u s) ! length (speeches s)) \<and>
   promise (speeches (speak u s) ! length (speeches s)) = Pending \<and>
   isSpeaking (speak u s)"
proof -
  have "length (speeches (cancelSpeech s)) = length (speeches s)"
    by (simp add: cancelSpeech_def Let_def split: option.splits)
  then show ?thesis
    by (simp add: speak_def Let_def nth_append)
qed

subsection \<open>Cancelling and stopping\<close>

lemma cancelSpeech_idem: "cancelSpeech (cancelSpeech s) = cancelSpeech s"
  by (simp add: cancelSpeech_def Let_def split: option.splits)

lemma cancelSpeech_idle: "\<not> isSpeaking s \<Longrightarrow> audioRef s = None \<Longrightarrow> cancelSpeech s = s"
  by (simp add: cancelSpeech_def Let_def)










section \<open>The claims\<close>

subsection \<open>C1: which text is finalized\<close>

text \<open>
  When a commit has run between the last result event and the end of capture, and the text
  differs from the one of the previous commit, \<open>onend\<close> commits the trimmed text of that
  last event (or nothing when it is empty).
\<close>

lemma flushed_text_is_committed:
  assumes "results \<noteq> []" and "in_session s" and "trim (last results) \<noteq> rendered_rawTranscript s"
  shows "transcript (run s [Result results, Render, End]) =
           (if trim (last results) = [] then transcript s else trim (last results))"
  using assms
  by (auto simp: run_def onresult_def render_def capture_ended_def onend_def in_session_def
      setTimeout_def clearTimeout_def Let_def trim_idem split: option.splits)

text \<open>
  Claim C1.  The claim is that the committed transcript is always the text of the last
  result event.  \<open>onend\<close> reads \<open>latestTextRef\<close>, which is written only by the effect that
  runs after a commit.  When the end of capture arrives before that commit, the earlier
  text is committed: after the results \<open>turn\<close> (committed) and \<open>turn the volume\<close> (not
  yet committed) the transcript is \<open>turn\<close>, also when the second one is the result the
  recognition object delivers between the firing of the silence timer and the end of
  capture; after a single uncommitted result nothing is committed at all.
\<close>

theorem finalization_reads_stale_text:
  "rawTranscript (run mounted [Start, Render, Result [''turn''], Render, Result [''turn the volume'']])
     = ''turn the volume'' \<and>
   transcript (run mounted [Start, Render, Result [''turn''], Render, Result [''turn the volume''], End])
     = ''turn'' \<and>
   transcript (run mounted [Start, Render, Result [''turn''], Render, TimerFires 1,
     Result [''turn the volume''], End]) = ''turn'' \<and>
   rawTranscript (run mounted [Start, Render, Result [''turn the volume'']]) = ''turn the volume'' \<and>
   transcript (run mounted [Start, Render, Result [''turn the volume''], End]) = []"
  by code_simp

subsection \<open>C2: one silence timer\<close>



subsection \<open>C3: two calls of \<open>speak\<close>\<close>

text \<open>
  Claim C3.  The claim is that after two calls of \<open>speak\<close> in quick succession only one
  playback is active and the first audio resource is disposed.  When the second call comes
  while the first request is still in flight, \<open>cancelSpeech\<close> finds no element to pause;
  both elements are created and both play once their metadata is loaded, both promises
  are resolved, and the object URL of the first is not revoked.
\<close>

theorem overlapping_speak_plays_both:
  "promise (speeches (run mounted [Speak ''a'', Speak ''b'', FetchOk 0, FetchOk 1,
      LoadedMetadata 0 1 True, LoadedMetadata 1 1 True]) ! 0) = Resolved 1000 \<and>
   promise (speeches (run mounted [Speak ''a'', Speak ''b'', FetchOk 0, FetchOk 1,
      LoadedMetadata 0 1 True, LoadedMetadata 1 1 True]) ! 1) = Resolved 1000 \<and>
   playing (speeches (run mounted [Speak ''a'', Speak ''b'', FetchOk 0, FetchOk 1,
      LoadedMetadata 0 1 True, LoadedMetadata 1 1 True]) ! 0) \<and>
   playing (speeches (run mounted [Speak ''a'', Speak ''b'', FetchOk 0, FetchOk 1,
      LoadedMetadata 0 1 True, LoadedMetadata 1 1 True]) ! 1) \<and>
   \<not> url_revoked (speeches (run mounted [Speak ''a'', Speak ''b'', FetchOk 0, FetchOk 1,
      LoadedMetadata 0 1 True, LoadedMetadata 1 1 True]) ! 0)"
  by code_simp

subsection \<open>C4: listening and speaking\<close>




subsection \<open>C5: recognition errors\<close>

text \<open>
  Claim C5.  \<open>onerror\<close> ignores \<open>aborted\<close> entirely; on \<open>no-speech\<close> it only resets
  \<open>isListening\<close>, so the error field keeps its value (\<open>null\<close> stays \<open>null\<close>); on any
  other error the error field becomes the non-null text \<open>Error: \<close> followed by the error
  code and \<open>isListening\<close> is reset.
\<close>

theorem onerror_taxonomy:
  "onerror ''aborted'' s = s \<and>
   onerror ''no-speech'' s = s\<lparr>isListening := False\<rparr> \<and>
   error (onerror ''no-speech'' s) = error s \<and>
   (e \<noteq> ''aborted'' \<and> e \<noteq> ''no-speech'' \<longrightarrow>
      error (onerror e s) = Some (''Error: '' @ e) \<and> \<not> isListening (onerror e s))"
  by (simp add: onerror_def)

theorem onerror_taxonomy_witness:
  "''network'' \<noteq> ''aborted'' \<and> ''network'' \<noteq> ''no-speech'' \<and>
   error (onerror ''network'' (run mounted [Start])) = Some ''Error: network'' \<and>
   \<not> isListening (onerror ''network'' (run mounted [Start]))"
  using onerror_taxonomy [of "run mounted [Start]" "''network''"] by simp

subsection \<open>C6: \<open>speak\<close> settles\<close>

text \<open>
  Claim C6.  In every reachable state no promise of \<open>speak\<close> is rejected, and every speech
  job is in one of three phases: its request is in flight, its promise is resolved, or its
  five-second fallback is pending.  A request in flight that fails resolves the promise
  with 0 and resets \<open>isSpeaking\<close>; one that succeeds arms the fallback.  An audio error
  leaves the promise resolved (with 0 when it was pending) and resets \<open>isSpeaking\<close>.  When
  the fallback fires the promise is resolved, with 0 when no duration was known by then.
  A call of \<open>speak\<close> adds one job whose request is in flight.
\<close>

theorem speak_always_settles:
  "let s = run (mount supported initial) evs in
     (\<forall>j < length (speeches s).
        promise (speeches s ! j) \<noteq> Rejected \<and>
        (fetching (speeches s ! j) \<or> is_resolved (promise (speeches s ! j)) \<or> armed j s) \<and>
        (fetching (speeches s ! j) \<longrightarrow>
           promise (speeches (fetch_failed j s) ! j) = Resolved 0 \<and>
           \<not> isSpeaking (fetch_failed j s) \<and>
           armed j (fetch_ok j s)) \<and>
        (has_audio (speeches s ! j) \<longrightarrow>
           is_resolved (promise (speeches (audio_onerror j s) ! j)) \<and>
           \<not> isSpeaking (audio_onerror j s) \<and>
           (promise (speeches s ! j) = Pending \<longrightarrow>
              promise (speeches (audio_onerror j s) ! j) = Resolved 0)) \<and>
        (\<forall>t. (t, DurationFallback j) \<in> set (timers s) \<longrightarrow>
           is_resolved (promise (speeches (fire_timer t s) ! j)) \<and>
           (promise (speeches s ! j) = Pending \<longrightarrow>
              promise (speeches (fire_timer t s) ! j) = Resolved 0))) \<and>
     length (speeches (speak u s)) = Suc (length (speeches s)) \<and>
     fetching (speeches (speak u s) ! length (speeches s)) \<and>
     promise (speeches (speak u s) ! length (speeches s)) = Pending \<and>
     isSpeaking (speak u s)"
proof -
  let ?s = "run (mount supported initial) evs"
  have inv: "timers_ok ?s" "speeches_ok ?s"
    using invariants_run [OF timers_ok_mount speeches_ok_mount] by simp_all
  have job: "promise (speeches ?s ! j) \<noteq> Rejected \<and>
        (fetching (speeches ?s ! j) \<or> is_resolved (promise (speeches ?s ! j)) \<or> armed j ?s) \<and>
        (fetching (speeches ?s ! j) \<longrightarrow>
           promise (speeches (fetch_failed j ?s) ! j) = Resolved 0 \<and>
           \<not> isSpeaking (fetch_failed j ?s) \<and>
           armed j (fetch_ok j ?s)) \<and>
        (has_audio (speeches ?s ! j) \<longrightarrow>
           is_resolved (promise (speeches (audio_onerror j ?s) ! j)) \<and>
           \<not> isSpeaking (audio_onerror j ?s) \<and>
           (promise (speeches ?s ! j) = Pending \<longrightarrow>
              promise (speeches (audio_onerror j ?s) ! j) = Resolved 0)) \<and>
        (\<forall>t. (t, DurationFallback j) \<in> set (timers ?s) \<longrightarrow>
           is_resolved (promise (speeches (fire_timer t ?s) ! j)) \<and>
           (promise (speeches ?s ! j) = Pending \<longrightarrow>
              promise (speeches (fire_timer t ?s) ! j) = Resolved 0))"
    if j: "j < length (speeches ?s)" for j
  proof -
    from inv(2) j have okj: "speech_ok ?s j"
      by (simp add: speeches_ok_def)
    then have nr: "promise (speeches ?s ! j) \<noteq> Rejected"
      and fp: "fetching (speeches ?s ! j) \<longrightarrow> promise (speeches ?s ! j) = Pending"
      unfolding speech_ok_def by blast+
    note a = speech_phase [OF okj]
    have b: "fetching (speeches ?s ! j) \<longrightarrow>
           promise (speeches (fetch_failed j ?s) ! j) = Resolved 0 \<and>
           \<not> isSpeaking (fetch_failed j ?s) \<and>
           armed j (fetch_ok j ?s)"
      using fetch_failed_resolves [OF j] fetch_ok_arms [OF j] fp by blast
    have c: "has_audio (speeches ?s ! j) \<longrightarrow>
           is_resolved (promise (speeches (audio_onerror j ?s) ! j)) \<and>
           \<not> isSpeaking (audio_onerror j ?s) \<and>
           (promise (speeches ?s ! j) = Pending \<longrightarrow>
              promise (speeches (audio_onerror j ?s) ! j) = Resolved 0)"
      using audio_onerror_resolves [OF j _ nr] by blast
    have d: "\<forall>t. (t, DurationFallback j) \<in> set (timers ?s) \<longrightarrow>
           is_resolved (promise (speeches (fire_timer t ?s) ! j)) \<and>
           (promise (speeches ?s ! j) = Pending \<longrightarrow>
              promise (speeches (fire_timer t ?s) ! j) = Resolved 0)"
      using fallback_fires_resolves [OF inv(2) inv(1)] by blast
    from nr a b c d show ?thesis by blast
  qed
  show ?thesis
    unfolding Let_def using job speak_issues_request [of u ?s] by blast
qed

theorem speak_always_settles_witness:
  "1 < length (speeches (run (mount True initial) [Speak ''a'', FetchOk 0, Speak ''b''])) \<and>
   fetching (speeches (run (mount True initial) [Speak ''a'', FetchOk 0, Speak ''b'']) ! 1) \<and>
   promise (speeches (fetch_failed 1 (run (mount True initial) [Speak ''a'', FetchOk 0, Speak ''b''])) ! 1)
     = Resolved 0 \<and>
   \<not> isSpeaking (fetch_failed 1 (run (mount True initial) [Speak ''a'', FetchOk 0, Speak ''b''])) \<and>
   has_audio (speeches (run (mount True initial) [Speak ''a'', FetchOk 0, Speak ''b'']) ! 0) \<and>
   promise (speeches (run (mount True initial) [Speak ''a'', FetchOk 0, Speak ''b'']) ! 0) = Pending \<and>
   (1, DurationFallback 0) \<in> set (timers (run (mount True initial) [Speak ''a'', FetchOk 0, Speak ''b''])) \<and>
   promise (speeches (fire_timer 1 (run (mount True initial) [Speak ''a'', FetchOk 0, Speak ''b''])) ! 0)
     = Resolved 0 \<and>
   promise (speeches (audio_onerror 0 (run (mount True initial) [Speak ''a'', FetchOk 0, Speak ''b''])) ! 0)
     = Resolved 0"
proof -
  let ?s = "run (mount True initial) [Speak ''a'', FetchOk 0, Speak ''b'']"
  have l1: "1 < length (speeches ?s)"
    by code_simp
  have l0: "0 < length (speeches ?s)"
    by code_simp
  have f1: "fetching (speeches ?s ! 1)"
    by code_simp
  have a0: "has_audio (speeches ?s ! 0)"
    by code_simp
  have p0: "promise (speeches ?s ! 0) = Pending"
    by code_simp
  have t0: "(1, DurationFallback 0) \<in> set (timers ?s)"
    by code_simp
  note T = speak_always_settles [of True "[Speak ''a'', FetchOk 0, Speak ''b'']", unfolded Let_def,
      THEN conjunct1]
  note J1 = T [THEN spec, THEN mp, OF l1]
  note J0 = T [THEN spec, THEN mp, OF l0]
  note ff = J1 [THEN conjunct2, THEN conjunct2, THEN conjunct1, THEN mp, OF f1]
  note ae = J0 [THEN conjunct2, THEN conjunct2, THEN conjunct2, THEN conjunct1, THEN mp, OF a0]
  note tf = J0 [THEN conjunct2, THEN conjunct2, THEN conjunct2, THEN conjunct2, THEN spec, THEN mp, OF t0]
  show ?thesis
    by (intro conjI l1 f1 ff [THEN conjunct1] ff [THEN conjunct2, THEN conjunct1] a0 p0 t0
        tf [THEN conjunct2, THEN mp, OF p0] ae [THEN conjunct2, THEN conjunct2, THEN mp, OF p0])
qed

subsection \<open>C7: \<open>stop\<close>\<close>



subsection \<open>C8: \<open>cancelSpeech\<close>\<close>

text \<open>
  Claim C8.  The claim is that \<open>cancelSpeech\<close> disposes the audio resource as normal
  completion does.  It is idempotent, changes nothing when idle, pauses the element and
  resets \<open>isSpeaking\<close> at once (see \<open>cancelSpeech_idem\<close>, \<open>cancelSpeech_idle\<close> and
  \<open>cancelSpeech_releases\<close>), but it never revokes the object URL, which \<open>onended\<close> does:
  after a playback is cancelled the URL is still live, after one that ended it is revoked.
\<close>

theorem cancelSpeech_keeps_object_url:
  "audioRef (run mounted [Speak ''hi'', FetchOk 0, LoadedMetadata 0 2 True]) = Some 0 \<and>
   playing (speeches (run mounted [Speak ''hi'', FetchOk 0, LoadedMetadata 0 2 True]) ! 0) \<and>
   \<not> playing (speeches (run mounted [Speak ''hi'', FetchOk 0, LoadedMetadata 0 2 True, CancelSpeech]) ! 0) \<and>
   \<not> url_revoked (speeches (run mounted [Speak ''hi'', FetchOk 0, LoadedMetadata 0 2 True, CancelSpeech]) ! 0) \<and>
   url_revoked (speeches (run mounted [Speak ''hi'', FetchOk 0, LoadedMetadata 0 2 True, AudioEnded 0]) ! 0)"
  by code_simp

subsection \<open>C9: the end of a capture session\<close>



subsection \<open>C10: starting twice\<close>

text \<open>
  Claim C10.  With a recognition object present: when \<open>recognition.start()\<close> throws an
  exception whose text contains \<open>already started\<close>, \<open>start\<close> leaves the error field
  \<open>null\<close> and sets \<open>isListening\<close>; when it throws anything else the error field is
  \<open>Failed to start listening\<close> and \<open>isListening\<close> is false.  The browser throws the
  former whenever a session has not ended, so two calls of \<open>start\<close> in a row end with no
  error and \<open>isListening\<close> true.
\<close>

theorem start_absorbs_already_started:
  "recognitionRef s \<noteq> None \<Longrightarrow>
     (str_includes err ''already started'' \<longrightarrow>
        error (start_with (Some err) s) = None \<and> isListening (start_with (Some err) s)) \<and>
     (\<not> str_includes err ''already started'' \<longrightarrow>
        error (start_with (Some err) s) = Some ''Failed to start listening'' \<and>
        \<not> isListening (start_with (Some err) s)) \<and>
     (recognitionRef s \<noteq> Some Inactive \<longrightarrow>
        start s = start_with (Some already_started_message) s \<and>
        str_includes already_started_message ''already started'') \<and>
     error (start (start s)) = None \<and> isListening (start (start s))"
proof -
  assume ne: "recognitionRef s \<noteq> None"
  define s0 where "s0 = (if rendered_isSpeaking s then cancelSpeech s else s)"
  have ne0: "recognitionRef s0 \<noteq> None"
    using ne by (simp add: s0_def recognitionRef_cancelSpeech)
  have sw: "start_with (Some err) s = arm_capture (Some err) s0"
    by (simp add: start_with_def s0_def)
  have a: "str_includes err ''already started'' \<longrightarrow>
        error (start_with (Some err) s) = None \<and> isListening (start_with (Some err) s)"
    unfolding sw using ne0 by (simp add: arm_capture_thrown)
  have b: "\<not> str_includes err ''already started'' \<longrightarrow>
        error (start_with (Some err) s) = Some ''Failed to start listening'' \<and>
        \<not> isListening (start_with (Some err) s)"
    unfolding sw using ne0 by (simp add: arm_capture_thrown)
  have c: "recognitionRef s \<noteq> Some Inactive \<longrightarrow>
        start s = start_with (Some already_started_message) s \<and>
        str_includes already_started_message ''already started''"
    using ne by (auto simp: start_def recognition_start_def includes_already_started)
  have d: "error (start (start s)) = None \<and> isListening (start (start s))"
    using start_listens [OF start_listens(3) [OF ne]] by simp
  from a b c d show ?thesis by blast
qed

theorem start_absorbs_already_started_witness:
  "recognitionRef (run mounted [Start]) \<noteq> None \<and>
   recognitionRef (run mounted [Start]) \<noteq> Some Inactive \<and>
   str_includes already_started_message ''already started'' \<and>
   \<not> str_includes ''NotAllowedError'' ''already started'' \<and>
   (start (run mounted [Start]) = start_with (Some already_started_message) (run mounted [Start]) \<and>
    str_includes already_started_message ''already started'') \<and>
   (error (start_with (Some already_started_message) (run mounted [Start])) = None \<and>
    isListening (start_with (Some already_started_message) (run mounted [Start]))) \<and>
   (error (start_with (Some ''NotAllowedError'') (run mounted [Start])) =
      Some ''Failed to start listening'' \<and>
    \<not> isListening (start_with (Some ''NotAllowedError'') (run mounted [Start]))) \<and>
   (error (start (start (run mounted [Start]))) = None \<and>
    isListening (start (start (run mounted [Start]))))"
proof -
  let ?s = "run mounted [Start]"
  have h: "recognitionRef ?s \<noteq> None"
    by code_simp
  have i: "recognitionRef ?s \<noteq> Some Inactive"
    by code_simp
  have y: "str_includes already_started_message ''already started''"
    by (rule includes_already_started)
  have n: "\<not> str_includes ''NotAllowedError'' ''already started''"
    by simp
  note T1 = start_absorbs_already_started [OF h, of already_started_message]
  note T2 = start_absorbs_already_started [OF h, of "''NotAllowedError''"]
  note a = T1 [THEN conjunct1, THEN mp, OF y]
  note b = T2 [THEN conjunct2, THEN conjunct1, THEN mp, OF n]
  note c = T1 [THEN conjunct2, THEN conjunct2, THEN conjunct1, THEN mp, OF i]
  note d = T1 [THEN conjunct2, THEN conjunct2, THEN conjunct2]
  show ?thesis
    by (intro conjI h i y n c a b d)
qed

end
